theory Spec2Isabelle
  imports Main
begin

section \<open>Go strings\<close>

text \<open>
  A Go string holding valid UTF-8 text is modelled by the list of its code points
  (what \<^verbatim>\<open>[]rune(text)\<close> yields; Go's \<^verbatim>\<open>rune\<close> is an integer type). \<^verbatim>\<open>len\<close> of a
  string is the number of bytes of its UTF-8 encoding, \<^verbatim>\<open>len(string(r))\<close> the number of
  bytes of one code point; a value that is no code point is encoded as U+FFFD, in three
  bytes.
\<close>

type_synonym rune = int
type_synonym gostring = "rune list"

definition rlen :: "rune \<Rightarrow> int" where
  "rlen r =
     (if r < 0 then 3
      else if r < 0x80 then 1
      else if r < 0x800 then 2
      else if 0xD800 \<le> r \<and> r \<le> 0xDFFF then 3
      else if r < 0x10000 then 3
      else if r \<le> 0x10FFFF then 4
      else 3)"

definition len :: "gostring \<Rightarrow> int" where
  "len s = sum_list (map rlen s)"

text \<open>An ASCII literal as a Go string.\<close>

definition S :: "string \<Rightarrow> gostring" where
  "S cs = map of_char cs"

text \<open>\<^verbatim>\<open>unicode.IsSpace\<close>, which \<^verbatim>\<open>strings.TrimSpace\<close> and \<^verbatim>\<open>strings.Fields\<close> use.\<close>

definition isSpace :: "rune \<Rightarrow> bool" where
  "isSpace r \<longleftrightarrow>
     r = 0x09 \<or> r = 0x0A \<or> r = 0x0B \<or> r = 0x0C \<or> r = 0x0D \<or> r = 0x20 \<or>
     r = 0x85 \<or> r = 0xA0 \<or> r = 0x1680 \<or> (0x2000 \<le> r \<and> r \<le> 0x200A) \<or>
     r = 0x2028 \<or> r = 0x2029 \<or> r = 0x202F \<or> r = 0x205F \<or> r = 0x3000"

definition TrimSpace :: "gostring \<Rightarrow> gostring" where
  "TrimSpace s = rev (dropWhile isSpace (rev (dropWhile isSpace s)))"

text \<open>\<^verbatim>\<open>strings.Fields\<close>: the maximal runs of non-space code points; \<open>cur\<close> is the run
  being read.\<close>

fun fieldsFrom :: "gostring \<Rightarrow> gostring \<Rightarrow> gostring list" where
  "fieldsFrom cur [] = (if cur = [] then [] else [cur])"
| "fieldsFrom cur (r # rs) =
     (if isSpace r then (if cur = [] then fieldsFrom [] rs else cur # fieldsFrom [] rs)
      else fieldsFrom (cur @ [r]) rs)"

definition Fields :: "gostring \<Rightarrow> gostring list" where
  "Fields s = fieldsFrom [] s"

text \<open>\<^verbatim>\<open>strings.Split(s, sep)\<close>: with an empty separator the string is exploded into its code
  points; otherwise it is cut at the non-overlapping occurrences of \<open>sep\<close>, from the left.\<close>

function splitAt :: "gostring \<Rightarrow> gostring \<Rightarrow> gostring \<Rightarrow> gostring list" where
  "splitAt sep cur [] = [cur]"
| "splitAt sep cur (r # rs) =
     (if sep \<noteq> [] \<and> take (length sep) (r # rs) = sep
      then cur # splitAt sep [] (drop (length sep) (r # rs))
      else splitAt sep (cur @ [r]) rs)"
  by pat_completeness auto
termination
  by (relation "measure (\<lambda>(sep, cur, rest). length rest)") auto

definition strings_Split :: "gostring \<Rightarrow> gostring \<Rightarrow> gostring list" where
  "strings_Split s sep = (if sep = [] then map (\<lambda>r. [r]) s else splitAt sep [] s)"

text \<open>\<^verbatim>\<open>strings.Join\<close>.\<close>

fun strings_Join :: "gostring list \<Rightarrow> gostring \<Rightarrow> gostring" where
  "strings_Join [] sep = []"
| "strings_Join [x] sep = x"
| "strings_Join (x # y # ys) sep = x @ sep @ strings_Join (y # ys) sep"

section \<open>Tokenizers\<close>

text \<open>The \<^verbatim>\<open>Tokenizer\<close> interface has the single method \<^verbatim>\<open>Encode\<close>; an implementation
  is modelled by that method.\<close>

type_synonym Tokenizer = "gostring \<Rightarrow> gostring list"

definition SimpleTokenizer_Encode :: Tokenizer where
  "SimpleTokenizer_Encode text = Fields text"

definition NewSimpleTokenizer :: Tokenizer where
  "NewSimpleTokenizer = SimpleTokenizer_Encode"

section \<open>Split functions\<close>

text \<open>The \<^verbatim>\<open>SentenceSplitterStrategy\<close> interface has the single method \<^verbatim>\<open>Split\<close>.\<close>

type_synonym SentenceSplitterStrategy = "gostring \<Rightarrow> gostring list"

text \<open>
  \<^verbatim>\<open>SplitBySep\<close>, \<^verbatim>\<open>SplitByRegex\<close>, \<^verbatim>\<open>SplitByChar\<close> and \<^verbatim>\<open>NewRegexSplitterStrategy\<close> are
  called by \<^verbatim>\<open>sentence_splitter.go\<close>, but the file that defines them is not among the
  sources; they are modelled from the spec (4.2, 4.3, 8).

  A pattern of the shape of \<^verbatim>\<open>DefaultChunkingRegex\<close>, \<^verbatim>\<open>[^P]+[P]?|[P]\<close>, is represented
  by its list \<open>P\<close> of terminators: comma, full stop, semicolon, and the ideographic full
  stop, full-width question mark and full-width exclamation mark.
\<close>

type_synonym regex = "rune list"

definition DefaultChunkingRegex :: regex where
  "DefaultChunkingRegex = [0x2C, 0x2E, 0x3B, 0x3002, 0xFF1F, 0xFF01]"

text \<open>Modelled from the spec: \<^verbatim>\<open>SplitBySep\<close>, the paragraph-separator and
  word-separator split (its source is missing). The pieces concatenate to the input, as
  the reconstruction property of the spec requires: each separator is kept, at the head
  of the piece that follows it, and empty pieces are dropped.\<close>

definition SplitBySep :: "gostring \<Rightarrow> gostring \<Rightarrow> gostring list" where
  "SplitBySep sep text =
     (case strings_Split text sep of
        [] \<Rightarrow> []
      | p # ps \<Rightarrow> filter (\<lambda>x. x \<noteq> []) (p # map (\<lambda>x. sep @ x) ps))"

text \<open>Modelled from the spec: \<^verbatim>\<open>SplitByRegex\<close>, the regex split (its source is missing):
  the successive matches of the pattern, so that each piece keeps its trailing
  terminator and a terminator that follows another one is a piece of its own.\<close>

fun regexMatches :: "regex \<Rightarrow> gostring \<Rightarrow> gostring \<Rightarrow> gostring list" where
  "regexMatches P cur [] = (if cur = [] then [] else [cur])"
| "regexMatches P cur (r # rs) =
     (if r \<in> set P then (cur @ [r]) # regexMatches P [] rs
      else regexMatches P (cur @ [r]) rs)"

definition SplitByRegex :: "regex \<Rightarrow> gostring \<Rightarrow> gostring list" where
  "SplitByRegex P text = regexMatches P [] text"

text \<open>Modelled from the spec: \<^verbatim>\<open>SplitByChar\<close>, the single-character split (its source
  is missing): more than one piece for a fragment longer than one character, exactly the
  fragment itself otherwise.\<close>

definition SplitByChar :: "gostring \<Rightarrow> gostring list" where
  "SplitByChar text = (if length text \<le> 1 then [text] else map (\<lambda>r. [r]) text)"

text \<open>Modelled from the spec: \<^verbatim>\<open>NewRegexSplitterStrategy\<close>, the regex strategy (its
  source is missing): it splits by the pattern it is built with.\<close>

definition NewRegexSplitterStrategy :: "regex \<Rightarrow> SentenceSplitterStrategy" where
  "NewRegexSplitterStrategy P = SplitByRegex P"

section \<open>SentenceSplitter\<close>

definition DefaultChunkSize :: int where
  "DefaultChunkSize = 1024"

definition DefaultChunkOverlap :: int where
  "DefaultChunkOverlap = 200"

definition DefaultParagraphSep :: gostring where
  "DefaultParagraphSep = [0x0A, 0x0A, 0x0A]"

definition DefaultSeparator :: gostring where
  "DefaultSeparator = [0x20]"

record textSplit =
  ttext :: gostring
  isSentence :: bool
  tokenSize :: int

record SentenceSplitter =
  ChunkSize :: int
  ChunkOverlap :: int
  Separator :: gostring
  ParagraphSeparator :: gostring
  SecondaryChunkingRegex :: regex
  Tokenizer :: Tokenizer
  SplitterStrategy :: SentenceSplitterStrategy
  splitFns :: "(gostring \<Rightarrow> gostring list) list"
  subSentenceSplitFns :: "(gostring \<Rightarrow> gostring list) list"

text \<open>\<^verbatim>\<open>initSplitFns\<close> fills the two chains from the other fields.\<close>

definition initSplitFns :: "SentenceSplitter \<Rightarrow> SentenceSplitter" where
  "initSplitFns s = s\<lparr>
     splitFns := [SplitBySep (ParagraphSeparator s), \<lambda>text. SplitterStrategy s text],
     subSentenceSplitFns :=
       [SplitByRegex (SecondaryChunkingRegex s), SplitBySep (Separator s), SplitByChar]\<rparr>"

text \<open>\<^verbatim>\<open>NewSentenceSplitter\<close>; a nil tokenizer or strategy is \<open>None\<close>.\<close>

definition NewSentenceSplitter ::
  "int \<Rightarrow> int \<Rightarrow> Tokenizer option \<Rightarrow> SentenceSplitterStrategy option \<Rightarrow> SentenceSplitter" where
  "NewSentenceSplitter chunkSize chunkOverlap tokenizer splitterStrategy =
     (let chunkSize' = (if chunkSize \<le> 0 then DefaultChunkSize else chunkSize);
          tokenizer' = (case tokenizer of None \<Rightarrow> NewSimpleTokenizer | Some t \<Rightarrow> t);
          splitterStrategy' = (case splitterStrategy of
             None \<Rightarrow> NewRegexSplitterStrategy DefaultChunkingRegex | Some st \<Rightarrow> st)
      in initSplitFns \<lparr>
           ChunkSize = chunkSize',
           ChunkOverlap = chunkOverlap,
           Separator = DefaultSeparator,
           ParagraphSeparator = DefaultParagraphSep,
           SecondaryChunkingRegex = DefaultChunkingRegex,
           Tokenizer = tokenizer',
           SplitterStrategy = splitterStrategy',
           splitFns = [],
           subSentenceSplitFns = []\<rparr>)"

definition getTokenSize :: "SentenceSplitter \<Rightarrow> gostring \<Rightarrow> int" where
  "getTokenSize s text = int (length (Tokenizer s text))"

text \<open>\<^verbatim>\<open>getSplitsByFns\<close>: the first primary function giving more than one piece wins
  (tagged as sentence); otherwise the sub-sentence functions are tried, and the result of
  the first with more than one piece, or else of the last one tried, is returned.\<close>

fun firstSplit :: "(gostring \<Rightarrow> gostring list) list \<Rightarrow> gostring \<Rightarrow> gostring list option" where
  "firstSplit [] text = None"
| "firstSplit (splitFn # fns) text =
     (let splits = splitFn text in
      if length splits > 1 then Some splits else firstSplit fns text)"

fun subSplit :: "(gostring \<Rightarrow> gostring list) list \<Rightarrow> gostring \<Rightarrow> gostring list \<Rightarrow> gostring list" where
  "subSplit [] text splits = splits"
| "subSplit (splitFn # fns) text splits =
     (let splits' = splitFn text in
      if length splits' > 1 then splits' else subSplit fns text splits')"

definition getSplitsByFns :: "SentenceSplitter \<Rightarrow> gostring \<Rightarrow> gostring list \<times> bool" where
  "getSplitsByFns s text =
     (case firstSplit (splitFns s) text of
        Some splits \<Rightarrow> (splits, True)
      | None \<Rightarrow> (subSplit (subSentenceSplitFns s) text [], False))"

text \<open>\<^verbatim>\<open>split\<close> recurses into every piece that is still too large. Nothing in the code
  bounds the recursion, so the model takes the permitted depth as its first argument and
  returns \<open>None\<close> when it is exhausted.\<close>

fun split :: "nat \<Rightarrow> SentenceSplitter \<Rightarrow> gostring \<Rightarrow> int \<Rightarrow> textSplit list option" where
  "split 0 s text chunkSize = None"
| "split (Suc depth) s text chunkSize =
     (let size = getTokenSize s text in
      if size \<le> chunkSize
      then Some [\<lparr>ttext = text, isSentence = True, tokenSize = size\<rparr>]
      else (case getSplitsByFns s text of
        (textSplitsByFns, isSent) \<Rightarrow>
          map_option concat (those (map
            (\<lambda>splitStr.
               let size' = getTokenSize s splitStr in
               if size' \<le> chunkSize
               then Some [\<lparr>ttext = splitStr, isSentence = isSent, tokenSize = size'\<rparr>]
               else split depth s splitStr chunkSize)
            textSplitsByFns))))"

subsection \<open>merge\<close>

datatype error = SingleTokenExceeded int int

record bufItem =
  btext :: gostring
  blen :: int

record mergeState =
  chunks :: "gostring list"
  curChunk :: "bufItem list"
  curChunkLen :: int
  newChunk :: bool
  splitIdx :: nat

definition chunkString :: "bufItem list \<Rightarrow> gostring" where
  "chunkString items = concat (map btext items)"

text \<open>The overlap loop of \<^verbatim>\<open>closeChunk\<close> walks the closed chunk from its last item
  backwards; \<open>items\<close> is the closed chunk reversed.\<close>

fun addOverlap :: "int \<Rightarrow> bufItem list \<Rightarrow> bufItem list \<times> int \<Rightarrow> bufItem list \<times> int" where
  "addOverlap overlap [] (cur, n) = (cur, n)"
| "addOverlap overlap (item # items) (cur, n) =
     (if n + blen item \<le> overlap
      then addOverlap overlap items (item # cur, n + blen item)
      else (cur, n))"

definition closeChunk :: "SentenceSplitter \<Rightarrow> mergeState \<Rightarrow> mergeState" where
  "closeChunk s st =
     (let lastChunk = curChunk st;
          (cur, n) = addOverlap (ChunkOverlap s) (rev lastChunk) ([], 0)
      in st\<lparr>chunks := chunks st @ [chunkString (curChunk st)],
            curChunk := cur, curChunkLen := n, newChunk := True\<rparr>)"

text \<open>The loop that pops inherited overlap from the front.\<close>

fun popFront :: "int \<Rightarrow> int \<Rightarrow> bufItem list \<times> int \<Rightarrow> bufItem list \<times> int" where
  "popFront chunkSize t ([], n) = ([], n)"
| "popFront chunkSize t (removed # cur, n) =
     (if n + t > chunkSize then popFront chunkSize t (cur, n - blen removed)
      else (removed # cur, n))"

text \<open>One iteration of the main loop, entered with \<open>splitIdx st < length splits\<close>.\<close>

definition mergeStep ::
  "SentenceSplitter \<Rightarrow> textSplit list \<Rightarrow> int \<Rightarrow> mergeState \<Rightarrow> error + mergeState" where
  "mergeStep s splits chunkSize st =
     (let curSplit = splits ! splitIdx st in
      if tokenSize curSplit > chunkSize
      then Inl (SingleTokenExceeded (tokenSize curSplit) chunkSize)
      else if curChunkLen st + tokenSize curSplit > chunkSize \<and> \<not> newChunk st
      then Inr (closeChunk s st)
      else
        let (cur, n) =
              (if newChunk st \<and> curChunkLen st + tokenSize curSplit > chunkSize
               then popFront chunkSize (tokenSize curSplit) (curChunk st, curChunkLen st)
               else (curChunk st, curChunkLen st));
            st1 = st\<lparr>curChunk := cur, curChunkLen := n\<rparr>
        in if isSentence curSplit \<or> n + tokenSize curSplit \<le> chunkSize \<or> newChunk st1
           then Inr (st1\<lparr>curChunkLen := n + tokenSize curSplit,
                         curChunk := cur @ [\<lparr>btext = ttext curSplit, blen = tokenSize curSplit\<rparr>],
                         splitIdx := splitIdx st + 1,
                         newChunk := False\<rparr>)
           else Inr (closeChunk s st1))"

text \<open>The main loop. A run that never leaves the loop has the value \<open>None\<close>.\<close>

partial_function (option) mergeLoop ::
  "SentenceSplitter \<Rightarrow> textSplit list \<Rightarrow> int \<Rightarrow> mergeState \<Rightarrow> (error + mergeState) option" where
  "mergeLoop s splits chunkSize st =
     (if splitIdx st < length splits
      then (case mergeStep s splits chunkSize st of
              Inl e \<Rightarrow> Some (Inl e)
            | Inr st' \<Rightarrow> mergeLoop s splits chunkSize st')
      else Some (Inr st))"

declare mergeLoop.simps [code]

definition mergeInit :: mergeState where
  "mergeInit = \<lparr>chunks = [], curChunk = [], curChunkLen = 0, newChunk = True, splitIdx = 0\<rparr>"

definition merge ::
  "SentenceSplitter \<Rightarrow> textSplit list \<Rightarrow> int \<Rightarrow> (error + gostring list) option" where
  "merge s splits chunkSize =
     (case mergeLoop s splits chunkSize mergeInit of
        None \<Rightarrow> None
      | Some (Inl e) \<Rightarrow> Some (Inl e)
      | Some (Inr st) \<Rightarrow>
          Some (Inr (if \<not> newChunk st then chunks st @ [chunkString (curChunk st)]
                     else chunks st)))"

definition postprocessChunks :: "gostring list \<Rightarrow> gostring list" where
  "postprocessChunks cs = filter (\<lambda>stripped. stripped \<noteq> []) (map TrimSpace cs)"

definition splitText ::
  "nat \<Rightarrow> SentenceSplitter \<Rightarrow> gostring \<Rightarrow> int \<Rightarrow> (error + gostring list) option" where
  "splitText depth s text chunkSize =
     (if text = [] then Some (Inr [text])
      else (case split depth s text chunkSize of
              None \<Rightarrow> None
            | Some splits \<Rightarrow>
                (case merge s splits chunkSize of
                   None \<Rightarrow> None
                 | Some (Inl e) \<Rightarrow> Some (Inl e)
                 | Some (Inr cs) \<Rightarrow> Some (Inr (postprocessChunks cs)))))"

definition SplitText :: "nat \<Rightarrow> SentenceSplitter \<Rightarrow> gostring \<Rightarrow> (error + gostring list) option" where
  "SplitText depth s text = splitText depth s text (ChunkSize s)"

section \<open>ParagraphSplitter\<close>













section \<open>Implementations of the two interfaces used in examples\<close>

text \<open>A byte-level tokenizer: one token for every byte of the UTF-8 encoding.\<close>

definition byteTokenizer :: Tokenizer where
  "byteTokenizer text = concat (map (\<lambda>r. replicate (nat (rlen r)) [r]) text)"



section \<open>Predicates used in the statements\<close>

text \<open>Every function of the two chains returns pieces that concatenate to its argument, and
  the sub-sentence chain is not empty.\<close>

definition lossless :: "SentenceSplitter \<Rightarrow> bool" where
  "lossless s \<longleftrightarrow>
     subSentenceSplitFns s \<noteq> [] \<and>
     (\<forall>splitFn \<in> set (splitFns s) \<union> set (subSentenceSplitFns s).
        \<forall>t. concat (splitFn t) = t)"

text \<open>The variant of the main loop of \<^verbatim>\<open>merge\<close>: the leaves still to be read, counted
  twice, plus one while the accumulator has taken a leaf since it was opened.\<close>

definition loopMeasure :: "textSplit list \<Rightarrow> mergeState \<Rightarrow> nat" where
  "loopMeasure splits st =
     2 * (length splits - splitIdx st) + (if newChunk st then 0 else 1)"



text \<open>The number of words that \<^verbatim>\<open>strings.Fields\<close> finds, reading from inside or outside
  a word.\<close>

fun wordCount :: "bool \<Rightarrow> gostring \<Rightarrow> nat" where
  "wordCount inWord [] = (if inWord then 1 else 0)"
| "wordCount inWord (r # rs) =
     (if isSpace r then (if inWord then 1 else 0) + wordCount False rs else wordCount True rs)"

text \<open>The invariant of the main loop of \<^verbatim>\<open>merge\<close> about sizes: emitted chunks fit, the
  running length is the sum over the accumulator, and an accumulator that has taken a
  leaf is not empty and fits.\<close>

definition itemsSize :: "bufItem list \<Rightarrow> int" where
  "itemsSize items = sum_list (map blen items)"


text \<open>The leaves \<open>a\<close>, ..., \<open>b - 1\<close> of a leaf sequence as accumulator items, their total
  size and their concatenated text.\<close>

definition leafItem :: "textSplit \<Rightarrow> bufItem" where
  "leafItem sp = \<lparr>btext = ttext sp, blen = tokenSize sp\<rparr>"

definition leafItems :: "textSplit list \<Rightarrow> nat \<Rightarrow> nat \<Rightarrow> bufItem list" where
  "leafItems splits a b = map leafItem (take (b - a) (drop a splits))"

definition leafSize :: "textSplit list \<Rightarrow> nat \<Rightarrow> nat \<Rightarrow> int" where
  "leafSize splits a b = itemsSize (leafItems splits a b)"

definition leafText :: "textSplit list \<Rightarrow> nat \<Rightarrow> nat \<Rightarrow> gostring" where
  "leafText splits a b = chunkString (leafItems splits a b)"

text \<open>A chunk is described by the segment \<open>(a, b)\<close> of the leaves it is made of. Two
  consecutive chunks are related as follows: the second starts inside the first (or at
  its end), with the overlap \<open>a', ..., b - 1\<close>, and goes on with at least the leaf \<open>b\<close>; a
  non-empty overlap is within the overlap size; and the overlap was not extended by the
  leaf before it only because that would exceed the overlap size, or the chunk size
  together with leaf \<open>b\<close>.\<close>

definition overlapOK ::
  "SentenceSplitter \<Rightarrow> int \<Rightarrow> textSplit list \<Rightarrow> nat \<times> nat \<Rightarrow> nat \<times> nat \<Rightarrow> bool" where
  "overlapOK s cs splits seg seg' \<longleftrightarrow>
     (case (seg, seg') of ((a, b), (a', b')) \<Rightarrow>
        a \<le> a' \<and> a' \<le> b \<and> b < b' \<and>
        (a' < b \<longrightarrow> leafSize splits a' b \<le> ChunkOverlap s) \<and>
        (a < a' \<longrightarrow> ChunkOverlap s < leafSize splits (a' - 1) b \<or>
                   cs < leafSize splits (a' - 1) b + tokenSize (splits ! b)))"

text \<open>The invariant of the main loop of \<^verbatim>\<open>merge\<close> about overlap: \<open>segs\<close> are the segments
  of the chunks emitted so far, \<open>a\<close> is where the accumulator starts, and \<open>linked\<close>
  relates the accumulator to the last chunk emitted.\<close>

definition linked ::
  "SentenceSplitter \<Rightarrow> int \<Rightarrow> textSplit list \<Rightarrow> nat \<times> nat \<Rightarrow> nat \<Rightarrow> mergeState \<Rightarrow> bool" where
  "linked s cs splits seg a st \<longleftrightarrow>
     (case seg of (al, bl) \<Rightarrow>
        al \<le> a \<and> a \<le> bl \<and> (a < bl \<longrightarrow> leafSize splits a bl \<le> ChunkOverlap s) \<and>
        (if newChunk st
         then splitIdx st = bl \<and> (al < a \<longrightarrow> ChunkOverlap s < leafSize splits (a - 1) bl)
         else bl < splitIdx st \<and>
              (al < a \<longrightarrow> ChunkOverlap s < leafSize splits (a - 1) bl \<or>
                         cs < leafSize splits (a - 1) bl + tokenSize (splits ! bl))))"

definition ovInv ::
  "SentenceSplitter \<Rightarrow> int \<Rightarrow> textSplit list \<Rightarrow> (nat \<times> nat) list \<Rightarrow> nat \<Rightarrow> mergeState \<Rightarrow> bool" where
  "ovInv s cs splits segs a st \<longleftrightarrow>
     chunks st = map (\<lambda>(a, b). leafText splits a b) segs \<and>
     (\<forall>(a, b)\<in>set segs. a < b \<and> b \<le> length splits) \<and>
     successively (overlapOK s cs splits) segs \<and>
     a \<le> splitIdx st \<and> splitIdx st \<le> length splits \<and>
     curChunk st = leafItems splits a (splitIdx st) \<and>
     curChunkLen st = leafSize splits a (splitIdx st) \<and>
     (\<not> newChunk st \<longrightarrow> a < splitIdx st) \<and>
     (segs \<noteq> [] \<longrightarrow> linked s cs splits (last segs) a st)"


section \<open>The main loop of merge, one iteration at a time\<close>

lemma mergeLoop_step:
  "splitIdx st < length splits \<Longrightarrow> mergeStep s splits cs st = Inr st' \<Longrightarrow>
   mergeLoop s splits cs st = mergeLoop s splits cs st'"
  by (subst mergeLoop.simps) simp

lemma mergeLoop_done:
  "\<not> splitIdx st < length splits \<Longrightarrow> mergeLoop s splits cs st = Some (Inr st)"
  by (subst mergeLoop.simps) simp

lemma mergeLoop_panic:
  "splitIdx st < length splits \<Longrightarrow> mergeStep s splits cs st = Inl e \<Longrightarrow>
   mergeLoop s splits cs st = Some (Inl e)"
  by (subst mergeLoop.simps) simp

section \<open>Input that fits into one chunk\<close>

text \<open>A single leaf that fits is appended to the fresh accumulator and emitted after the
  loop.\<close>

lemma merge_single:
  assumes "t \<le> cs"
  shows "merge s [\<lparr>ttext = text, isSentence = True, tokenSize = t\<rparr>] cs = Some (Inr [text])"
proof -
  let ?sp = "[\<lparr>ttext = text, isSentence = True, tokenSize = t\<rparr>]"
  let ?st' = "\<lparr>chunks = [], curChunk = [\<lparr>btext = text, blen = t\<rparr>], curChunkLen = t,
               newChunk = False, splitIdx = Suc 0\<rparr>"
  have step: "mergeStep s ?sp cs mergeInit = Inr ?st'"
    using assms by (simp add: mergeStep_def mergeInit_def Let_def)
  have "mergeLoop s ?sp cs mergeInit = mergeLoop s ?sp cs ?st'"
    by (rule mergeLoop_step[OF _ step]) (simp add: mergeInit_def)
  also have "\<dots> = Some (Inr ?st')"
    by (rule mergeLoop_done) simp
  finally show ?thesis
    by (simp add: merge_def chunkString_def)
qed

lemma splitText_fits:
  assumes "getTokenSize s text \<le> cs" and "text \<noteq> []"
  shows "splitText (Suc depth) s text cs = Some (Inr (postprocessChunks [text]))"
  using assms by (simp add: splitText_def Let_def merge_single)

lemma fieldsFrom_spaces: "\<forall>r\<in>set rs. isSpace r \<Longrightarrow> fieldsFrom [] rs = []"
  by (induction rs) auto

lemma TrimSpace_spaces: "\<forall>r\<in>set rs. isSpace r \<Longrightarrow> TrimSpace rs = []"
proof -
  assume "\<forall>r\<in>set rs. isSpace r"
  then have d: "dropWhile isSpace rs = []" by simp
  show ?thesis unfolding TrimSpace_def d by simp
qed

text \<open>
  C5, as the code has it. When the measured size of the input is at most the chunk size,
  \<^verbatim>\<open>SplitText\<close> returns exactly one chunk, the whitespace-trimmed input, except for a
  non-empty input made of whitespace only: its single chunk trims to the empty string and
  post-processing drops it, so no chunk is returned.
\<close>

theorem SplitText_fits_single_chunk:
  "getTokenSize s text \<le> ChunkSize s \<Longrightarrow>
   SplitText (Suc depth) s text =
     Some (Inr (if text \<noteq> [] \<and> TrimSpace text = [] then [] else [TrimSpace text]))"
  by (cases "text = []")
     (simp_all add: SplitText_def splitText_fits postprocessChunks_def,
      simp_all add: splitText_def TrimSpace_def)

theorem SplitText_fits_single_chunk_witness:
  "getTokenSize (NewSentenceSplitter 0 0 None None) (S '' one  two '')
     \<le> ChunkSize (NewSentenceSplitter 0 0 None None) \<and>
   SplitText 1 (NewSentenceSplitter 0 0 None None) (S '' one  two '')
     = Some (Inr [S ''one  two''])"
proof -
  have h: "getTokenSize (NewSentenceSplitter 0 0 None None) (S '' one  two '')
             \<le> ChunkSize (NewSentenceSplitter 0 0 None None)"
    by code_simp
  have t: "TrimSpace (S '' one  two '') = S ''one  two''"
    by code_simp
  show ?thesis
    using h SplitText_fits_single_chunk[OF h, of 0] t by (simp add: S_def)
qed

text \<open>The claim as stated fails on a single space: it measures 0 tokens, yet no chunk is
  returned.\<close>

theorem SplitText_single_chunk_counterexample:
  "getTokenSize (NewSentenceSplitter 0 0 None None) (S '' '')
     \<le> ChunkSize (NewSentenceSplitter 0 0 None None) \<and>
   SplitText 1 (NewSentenceSplitter 0 0 None None) (S '' '') = Some (Inr [])"
  by code_simp

section \<open>Whitespace-only input\<close>

text \<open>
  C10. For a non-empty input made of whitespace only, measured by the whitespace tokenizer
  (the default one) under a chunk size that is not negative, the measure is 0 and
  \<^verbatim>\<open>SplitText\<close> returns the empty sequence: the single merged chunk trims to the empty
  string and post-processing drops it.
\<close>

theorem SplitText_whitespace_only:
  assumes "text \<noteq> []" and "\<forall>r\<in>set text. isSpace r"
    and "Tokenizer s = SimpleTokenizer_Encode" and "0 \<le> ChunkSize s"
  shows "getTokenSize s text = 0 \<and> SplitText (Suc depth) s text = Some (Inr [])"
proof -
  have m: "getTokenSize s text = 0"
    using assms(2,3)
    by (simp add: getTokenSize_def SimpleTokenizer_Encode_def Fields_def fieldsFrom_spaces)
  then have "splitText (Suc depth) s text (ChunkSize s) = Some (Inr (postprocessChunks [text]))"
    using assms(1,4) by (intro splitText_fits) simp_all
  with m show ?thesis
    using assms(2) by (simp add: SplitText_def postprocessChunks_def TrimSpace_spaces)
qed

theorem SplitText_whitespace_only_witness:
  "getTokenSize (NewSentenceSplitter 0 0 None None) [0x20, 0x0A, 0x09, 0x3000] = 0 \<and>
   SplitText 1 (NewSentenceSplitter 0 0 None None) [0x20, 0x0A, 0x09, 0x3000] = Some (Inr [])"
proof -
  have "Tokenizer (NewSentenceSplitter 0 0 None None) = SimpleTokenizer_Encode"
    by (simp add: NewSentenceSplitter_def initSplitFns_def Let_def NewSimpleTokenizer_def)
  moreover have "0 \<le> ChunkSize (NewSentenceSplitter 0 0 None None)"
    by (simp add: NewSentenceSplitter_def initSplitFns_def Let_def DefaultChunkSize_def)
  moreover have "\<forall>r\<in>set [0x20, 0x0A, 0x09, 0x3000]. isSpace r"
    by (simp add: isSpace_def)
  ultimately show ?thesis
    using SplitText_whitespace_only
      [of "[0x20, 0x0A, 0x09, 0x3000]" "NewSentenceSplitter 0 0 None None" 0]
    by simp
qed

section \<open>Empty input\<close>

text \<open>
  C6. \<^verbatim>\<open>SentenceSplitter.SplitText\<close> applied to the empty string returns the one-element
  sequence holding the empty string, for every splitter and without entering the
  recursion; post-processing does not prune it.
\<close>

theorem SplitText_empty: "SplitText depth s [] = Some (Inr [[]])"
  by (simp add: SplitText_def splitText_def)

section \<open>Defaults of the constructor\<close>

text \<open>
  C7, as the code has it. A \<^verbatim>\<open>SentenceSplitter\<close> constructed with a non-positive chunk
  size has chunk size 1024, whatever the other arguments are; its overlap is the value
  passed, so a zero overlap stays zero and is not replaced by the default 200.
\<close>

theorem NewSentenceSplitter_defaults:
  "chunkSize \<le> 0 \<Longrightarrow>
   ChunkSize (NewSentenceSplitter chunkSize chunkOverlap tokenizer splitterStrategy) = 1024 \<and>
   ChunkOverlap (NewSentenceSplitter chunkSize chunkOverlap tokenizer splitterStrategy)
     = chunkOverlap"
  by (simp add: NewSentenceSplitter_def initSplitFns_def DefaultChunkSize_def Let_def)

theorem NewSentenceSplitter_defaults_witness:
  "(0::int) \<le> 0 \<and> ChunkSize (NewSentenceSplitter 0 0 None None) = 1024 \<and>
   ChunkOverlap (NewSentenceSplitter 0 0 None None) = 0"
  using NewSentenceSplitter_defaults[of 0 0 None None] by simp

text \<open>The splitter built from no explicit values has overlap 0, not the default.\<close>

theorem NewSentenceSplitter_overlap_counterexample:
  "ChunkOverlap (NewSentenceSplitter 0 0 None None) = 0 \<and> DefaultChunkOverlap = 200"
  by (simp add: NewSentenceSplitter_def initSplitFns_def Let_def DefaultChunkOverlap_def)

section \<open>Termination of merge\<close>

lemma newChunk_closeChunk [simp]: "newChunk (closeChunk s st) = True"
  by (simp add: closeChunk_def Let_def split: prod.splits)

lemma splitIdx_closeChunk [simp]: "splitIdx (closeChunk s st) = splitIdx st"
  by (simp add: closeChunk_def Let_def split: prod.splits)

text \<open>An iteration on a leaf that fits does not panic and decreases the variant: it
  either closes a chunk that has taken a leaf, or appends the leaf.\<close>

lemma mergeStep_progress:
  assumes "splitIdx st < length splits" and "tokenSize (splits ! splitIdx st) \<le> cs"
  shows "\<exists>st'. mergeStep s splits cs st = Inr st' \<and>
               loopMeasure splits st' < loopMeasure splits st"
  using assms
  by (auto simp: mergeStep_def Let_def loopMeasure_def split: prod.splits)

lemma mergeLoop_returns:
  assumes "\<forall>sp\<in>set splits. tokenSize sp \<le> cs"
  shows "\<exists>st'. mergeLoop s splits cs st = Some (Inr st')"
proof (induction "loopMeasure splits st" arbitrary: st rule: less_induct)
  case less
  show ?case
  proof (cases "splitIdx st < length splits")
    case True
    then have "tokenSize (splits ! splitIdx st) \<le> cs"
      using assms by simp
    from mergeStep_progress[OF True this]
    obtain st' where st': "mergeStep s splits cs st = Inr st'"
      "loopMeasure splits st' < loopMeasure splits st" by blast
    from less[OF st'(2)] mergeLoop_step[OF True st'(1)] show ?thesis by simp
  next
    case False
    then show ?thesis by (simp add: mergeLoop_done)
  qed
qed

text \<open>
  C9. For every finite sequence of leaves in which each leaf's size is at most the chunk
  size, \<^verbatim>\<open>merge\<close> leaves its loop and returns a chunk sequence (it neither runs forever
  nor panics).
\<close>

theorem merge_terminates:
  "\<forall>sp\<in>set splits. tokenSize sp \<le> chunkSize \<Longrightarrow>
   \<exists>cs. merge s splits chunkSize = Some (Inr cs)"
proof -
  assume "\<forall>sp\<in>set splits. tokenSize sp \<le> chunkSize"
  from mergeLoop_returns[OF this, of s mergeInit]
  obtain st' where "mergeLoop s splits chunkSize mergeInit = Some (Inr st')" by blast
  then show ?thesis by (simp add: merge_def)
qed

theorem merge_terminates_witness:
  "\<exists>cs. merge (NewSentenceSplitter 3 1 None None)
          [\<lparr>ttext = S ''a b.'', isSentence = True, tokenSize = 2\<rparr>,
           \<lparr>ttext = S '' c d.'', isSentence = True, tokenSize = 2\<rparr>,
           \<lparr>ttext = S '' e'', isSentence = False, tokenSize = 1\<rparr>] 3 = Some (Inr cs)"
  using merge_terminates
    [of "[\<lparr>ttext = S ''a b.'', isSentence = True, tokenSize = 2\<rparr>,
          \<lparr>ttext = S '' c d.'', isSentence = True, tokenSize = 2\<rparr>,
          \<lparr>ttext = S '' e'', isSentence = False, tokenSize = 1\<rparr>]" 3
        "NewSentenceSplitter 3 1 None None"]
  by simp

section \<open>Leaves that never fit\<close>

lemma those_map_all:
  "those (map f cands) = Some ys \<Longrightarrow> \<forall>c\<in>set cands. \<forall>y. f c = Some y \<longrightarrow> P y \<Longrightarrow>
   \<forall>y\<in>set ys. P y"
  by (induction cands arbitrary: ys) (auto split: option.splits)

text \<open>Every leaf that \<^verbatim>\<open>split\<close> returns fits: a piece that does not fit is never kept,
  it is split again.\<close>

lemma split_leaves_fit:
  "split depth s text cs = Some leaves \<Longrightarrow> \<forall>l\<in>set leaves. tokenSize l \<le> cs"
proof (induction depth arbitrary: "text" leaves)
  case 0
  then show ?case by simp
next
  case (Suc depth)
  show ?case
  proof (cases "getTokenSize s text \<le> cs")
    case True
    with Suc.prems show ?thesis by (auto simp: Let_def)
  next
    case False
    obtain cands isS where g: "getSplitsByFns s text = (cands, isS)"
      by (cases "getSplitsByFns s text")
    let ?f = "\<lambda>splitStr. let size' = getTokenSize s splitStr in
               if size' \<le> cs
               then Some [\<lparr>ttext = splitStr, isSentence = isS, tokenSize = size'\<rparr>]
               else split depth s splitStr cs"
    from Suc.prems False g obtain ys
      where ys: "those (map ?f cands) = Some ys" "leaves = concat ys"
      by (auto simp: Let_def)
    have "\<forall>c\<in>set cands. \<forall>y. ?f c = Some y \<longrightarrow> (\<forall>l\<in>set y. tokenSize l \<le> cs)"
      using Suc.IH by (auto simp: Let_def split: if_splits)
    from those_map_all[OF ys(1), where P="\<lambda>y. \<forall>l\<in>set y. tokenSize l \<le> cs", OF this]
    show ?thesis using ys(2) by auto
  qed
qed

text \<open>Hence the panic of \<^verbatim>\<open>merge\<close> is out of reach of \<^verbatim>\<open>SplitText\<close>.\<close>

lemma SplitText_no_panic: "SplitText depth s text \<noteq> Some (Inl e)"
proof (cases "text = []")
  case True
  then show ?thesis by (simp add: SplitText_def splitText_def)
next
  case False
  show ?thesis
  proof (cases "split depth s text (ChunkSize s)")
    case None
    with False show ?thesis by (simp add: SplitText_def splitText_def)
  next
    case (Some leaves)
    from mergeLoop_returns[OF split_leaves_fit[OF Some], of s mergeInit]
    obtain st where "mergeLoop s leaves (ChunkSize s) mergeInit = Some (Inr st)" by blast
    with False Some show ?thesis by (simp add: SplitText_def splitText_def merge_def)
  qed
qed

text \<open>
  C2, where the code departs from it. With the byte-level tokenizer and chunk size 1, the
  one-character text U+00E9 (code point 233, two bytes) measures 2. No split function
  gives more than one piece, so \<^verbatim>\<open>split\<close> calls itself on the same text again: whatever
  depth is allowed, it is exhausted, and neither a chunk sequence nor the panic of
  \<^verbatim>\<open>merge\<close> is ever reached.
\<close>

theorem SplitText_oversized_char_never_returns:
  "getTokenSize (NewSentenceSplitter 1 0 (Some byteTokenizer) None) [0xE9] = 2 \<and>
   split depth (NewSentenceSplitter 1 0 (Some byteTokenizer) None) [0xE9] 1 = None \<and>
   SplitText depth (NewSentenceSplitter 1 0 (Some byteTokenizer) None) [0xE9] = None"
proof -
  let ?s = "NewSentenceSplitter 1 0 (Some byteTokenizer) None"
  have sz: "getTokenSize ?s [0xE9] = 2"
    by code_simp
  have g: "getSplitsByFns ?s [0xE9] = ([[0xE9]], False)"
    by code_simp
  have cs: "ChunkSize ?s = 1"
    by (simp add: NewSentenceSplitter_def initSplitFns_def Let_def)
  have d: "split depth ?s [0xE9] 1 = None"
  proof (induction depth)
    case 0
    show ?case by simp
  next
    case (Suc depth)
    then show ?case by (simp add: sz g)
  qed
  show ?thesis
    by (simp add: sz d cs SplitText_def splitText_def)
qed

section \<open>Reconstruction\<close>





text \<open>The split functions of the constructor concatenate to their argument.\<close>

lemma regexMatches_concat: "concat (regexMatches P cur rs) = cur @ rs"
  by (induction rs arbitrary: cur) auto

lemma concat_singletons: "concat (map (\<lambda>r. [r]) t) = t"
  by (induction t) auto

lemma SplitByChar_concat: "concat (SplitByChar t) = t"
  by (simp add: SplitByChar_def concat_singletons)

lemma splitAt_nonempty: "splitAt sep cur rs \<noteq> []"
  by (induction sep cur rs rule: splitAt.induct) auto

lemma strings_Join_Cons:
  "ys \<noteq> [] \<Longrightarrow> strings_Join (x # ys) sep = x @ sep @ strings_Join ys sep"
  by (cases ys) auto

lemma splitAt_join: "strings_Join (splitAt sep cur rs) sep = cur @ rs"
proof (induction sep cur rs rule: splitAt.induct)
  case (1 sep cur)
  show ?case by simp
next
  case (2 sep cur r rs)
  show ?case
  proof (cases "sep \<noteq> [] \<and> take (length sep) (r # rs) = sep")
    case True
    then have "strings_Join (splitAt sep cur (r # rs)) sep
        = cur @ sep @ strings_Join (splitAt sep [] (drop (length sep) (r # rs))) sep"
      by (simp add: strings_Join_Cons splitAt_nonempty)
    also have "\<dots> = cur @ take (length sep) (r # rs) @ drop (length sep) (r # rs)"
      using 2(1) True by simp
    finally show ?thesis by (simp only: append_take_drop_id)
  next
    case False
    with 2(2) show ?thesis by auto
  qed
qed

lemma strings_Join_heads:
  "strings_Join (p # ps) sep = p @ concat (map (\<lambda>x. sep @ x) ps)"
  by (induction ps arbitrary: p) (auto simp: strings_Join_Cons)

lemma concat_filter_nonempty: "concat (filter (\<lambda>x. x \<noteq> []) xs) = concat xs"
  by (induction xs) auto

lemma SplitBySep_concat: "concat (SplitBySep sep t) = t"
proof (cases "sep = []")
  case True
  then show ?thesis
    by (cases t)
       (simp_all add: SplitBySep_def strings_Split_def concat_filter_nonempty
          concat_singletons comp_def)
next
  case False
  obtain p ps where sp: "splitAt sep [] t = p # ps"
    using splitAt_nonempty[of sep "[]" t] by (cases "splitAt sep [] t") auto
  have "concat (SplitBySep sep t) = p @ concat (map (\<lambda>x. sep @ x) ps)"
    using False sp
    by (simp add: SplitBySep_def strings_Split_def concat_filter_nonempty del: filter.simps)
  also have "\<dots> = strings_Join (splitAt sep [] t) sep"
    by (simp add: sp strings_Join_heads)
  finally show ?thesis by (simp add: splitAt_join)
qed

lemma lossless_New:
  assumes "\<forall>t. concat (strategy t) = t"
  shows "lossless (NewSentenceSplitter chunkSize chunkOverlap tokenizer (Some strategy))"
  using assms
  by (simp add: lossless_def NewSentenceSplitter_def initSplitFns_def Let_def
      SplitBySep_concat SplitByChar_concat SplitByRegex_def regexMatches_concat)





section \<open>The hard split of an oversized paragraph\<close>


lemma len_Nil [simp]: "len [] = 0"
  by (simp add: len_def)

lemma len_Cons [simp]: "len (r # rs) = rlen r + len rs"
  by (simp add: len_def)

lemma len_append [simp]: "len (xs @ ys) = len xs + len ys"
  by (simp add: len_def)

















section \<open>Chunk sizes of the paragraph splitter\<close>












section \<open>Chunk sizes of the sentence splitter\<close>

text \<open>An invariant of the main loop holds of the state the loop returns.\<close>

lemma mergeStep_decreases:
  assumes "splitIdx st < length splits" and "mergeStep s splits cs st = Inr st1"
  shows "loopMeasure splits st1 < loopMeasure splits st"
  using assms
  by (auto simp: mergeStep_def Let_def loopMeasure_def split: prod.splits if_splits)

lemma mergeLoop_invariant:
  assumes step: "\<And>st st1. I st \<Longrightarrow> splitIdx st < length splits \<Longrightarrow>
           mergeStep s splits cs st = Inr st1 \<Longrightarrow> I st1"
  shows "I st \<Longrightarrow> mergeLoop s splits cs st = Some (Inr st') \<Longrightarrow>
         I st' \<and> \<not> splitIdx st' < length splits"
proof (induction "loopMeasure splits st" arbitrary: st rule: less_induct)
  case less
  show ?case
  proof (cases "splitIdx st < length splits")
    case True
    show ?thesis
    proof (cases "mergeStep s splits cs st")
      case (Inl e)
      with True less.prems(2) show ?thesis by (simp add: mergeLoop_panic)
    next
      case (Inr st1)
      with True less.prems(2) have "mergeLoop s splits cs st1 = Some (Inr st')"
        by (simp add: mergeLoop_step)
      with less.hyps[OF mergeStep_decreases[OF True Inr] step[OF less.prems(1) True Inr]]
      show ?thesis .
    qed
  next
    case False
    with less.prems show ?thesis by (simp add: mergeLoop_done)
  qed
qed







lemma split_leaves_measured:
  "split depth s text cs = Some leaves \<Longrightarrow> \<forall>l\<in>set leaves. tokenSize l = getTokenSize s (ttext l)"
proof (induction depth arbitrary: "text" leaves)
  case 0
  then show ?case by simp
next
  case (Suc depth)
  show ?case
  proof (cases "getTokenSize s text \<le> cs")
    case True
    with Suc.prems show ?thesis by (auto simp: Let_def)
  next
    case False
    obtain cands isS where g: "getSplitsByFns s text = (cands, isS)"
      by (cases "getSplitsByFns s text")
    let ?f = "\<lambda>splitStr. let size' = getTokenSize s splitStr in
               if size' \<le> cs
               then Some [\<lparr>ttext = splitStr, isSentence = isS, tokenSize = size'\<rparr>]
               else split depth s splitStr cs"
    from Suc.prems False g obtain ys
      where ys: "those (map ?f cands) = Some ys" "leaves = concat ys"
      by (auto simp: Let_def)
    have "\<forall>c\<in>set cands. \<forall>y. ?f c = Some y \<longrightarrow> (\<forall>l\<in>set y. tokenSize l = getTokenSize s (ttext l))"
      using Suc.IH by (auto simp: Let_def split: if_splits)
    from those_map_all[OF ys(1), where P="\<lambda>y. \<forall>l\<in>set y. tokenSize l = getTokenSize s (ttext l)", OF this]
    show ?thesis using ys(2) by auto
  qed
qed




lemma wordCount_False_le: "wordCount False rs \<le> wordCount True rs"
  by (induction rs) auto











section \<open>Overlap between consecutive chunks\<close>

lemma itemsSize_Nil [simp]: "itemsSize [] = 0"
  by (simp add: itemsSize_def)

lemma itemsSize_Cons [simp]: "itemsSize (x # xs) = blen x + itemsSize xs"
  by (simp add: itemsSize_def)

lemma itemsSize_append [simp]: "itemsSize (xs @ ys) = itemsSize xs + itemsSize ys"
  by (simp add: itemsSize_def)

lemma itemsSize_take_drop: "itemsSize (take j xs) + itemsSize (drop j xs) = itemsSize xs"
  by (metis append_take_drop_id itemsSize_append)

lemma itemsSize_nonneg: "\<forall>x\<in>set xs. 0 \<le> blen x \<Longrightarrow> 0 \<le> itemsSize xs"
  by (induction xs) auto

lemma length_leafItems: "b \<le> length splits \<Longrightarrow> length (leafItems splits a b) = b - a"
  by (simp add: leafItems_def)

lemma drop_leafItems: "drop k (leafItems splits a b) = leafItems splits (a + k) b"
  by (simp add: leafItems_def drop_map drop_take add.commute)

lemma leafItems_empty [simp]: "leafItems splits a a = []"
  by (simp add: leafItems_def)

lemma leafItems_Suc:
  assumes "a \<le> b" and "b < length splits"
  shows "leafItems splits a (Suc b) = leafItems splits a b @ [leafItem (splits ! b)]"
proof -
  have "Suc b - a = Suc (b - a)" using assms by simp
  moreover have "b - a < length (drop a splits)" using assms by simp
  moreover have "drop a splits ! (b - a) = splits ! b" using assms by simp
  ultimately show ?thesis
    by (simp add: leafItems_def take_Suc_conv_app_nth)
qed

lemma leafItems_nonneg:
  "\<forall>sp\<in>set splits. 0 \<le> tokenSize sp \<Longrightarrow> \<forall>x\<in>set (leafItems splits a b). 0 \<le> blen x"
  by (auto simp: leafItems_def leafItem_def dest!: in_set_takeD in_set_dropD)

lemma leafSize_mono:
  assumes "\<forall>sp\<in>set splits. 0 \<le> tokenSize sp" and "a \<le> a'"
  shows "leafSize splits a' b \<le> leafSize splits a b"
proof -
  have d: "leafItems splits a' b = drop (a' - a) (leafItems splits a b)"
    using assms(2) by (simp add: drop_leafItems)
  have "0 \<le> itemsSize (take (a' - a) (leafItems splits a b))"
    using leafItems_nonneg[OF assms(1), of a b]
    by (intro itemsSize_nonneg) (auto dest: in_set_takeD)
  with itemsSize_take_drop[of "a' - a" "leafItems splits a b"] show ?thesis
    by (simp add: leafSize_def d)
qed

lemma addOverlap_spec:
  "\<exists>k\<le>length xs.
     addOverlap ov (rev xs) (acc, n) = (drop k xs @ acc, n + itemsSize (drop k xs)) \<and>
     (k < length xs \<longrightarrow> n + itemsSize (drop k xs) \<le> ov) \<and>
     (0 < k \<longrightarrow> ov < n + itemsSize (drop (k - 1) xs))"
proof (induction xs arbitrary: acc n rule: rev_induct)
  case Nil
  show ?case by simp
next
  case (snoc y ys)
  show ?case
  proof (cases "n + blen y \<le> ov")
    case True
    from snoc[of "y # acc" "n + blen y"] obtain k where k: "k \<le> length ys"
      "addOverlap ov (rev ys) (y # acc, n + blen y)
         = (drop k ys @ y # acc, n + blen y + itemsSize (drop k ys))"
      "k < length ys \<longrightarrow> n + blen y + itemsSize (drop k ys) \<le> ov"
      "0 < k \<longrightarrow> ov < n + blen y + itemsSize (drop (k - 1) ys)"
      by blast
    show ?thesis
    proof (intro exI[of _ k] conjI impI)
      show "k \<le> length (ys @ [y])" using k(1) by simp
      show "addOverlap ov (rev (ys @ [y])) (acc, n)
              = (drop k (ys @ [y]) @ acc, n + itemsSize (drop k (ys @ [y])))"
        using True k(1,2) by simp
      show "n + itemsSize (drop k (ys @ [y])) \<le> ov"
        using True k(1,3) by (cases "k < length ys") auto
      show "ov < n + itemsSize (drop (k - 1) (ys @ [y]))" if "0 < k"
        using that k(1,4) by simp
    qed
  next
    case False
    show ?thesis
      using False by (intro exI[of _ "length (ys @ [y])"]) simp
  qed
qed

lemma popFront_spec:
  "\<exists>j\<le>length xs.
     popFront cs t (xs, n) = (drop j xs, n - itemsSize (take j xs)) \<and>
     (0 < j \<longrightarrow> cs < n - itemsSize (take (j - 1) xs) + t)"
proof (induction xs arbitrary: n)
  case Nil
  show ?case by simp
next
  case (Cons x xs)
  show ?case
  proof (cases "n + t > cs")
    case True
    from Cons[of "n - blen x"] obtain j where j: "j \<le> length xs"
      "popFront cs t (xs, n - blen x) = (drop j xs, n - blen x - itemsSize (take j xs))"
      "0 < j \<longrightarrow> cs < n - blen x - itemsSize (take (j - 1) xs) + t"
      by blast
    show ?thesis
    proof (intro exI[of _ "Suc j"] conjI impI)
      show "Suc j \<le> length (x # xs)" using j(1) by simp
      show "popFront cs t (x # xs, n) = (drop (Suc j) (x # xs), n - itemsSize (take (Suc j) (x # xs)))"
        using True j(2) by simp
      show "cs < n - itemsSize (take (Suc j - 1) (x # xs)) + t"
        using True j(3) by (cases j) auto
    qed
  next
    case False
    then show ?thesis by (intro exI[of _ 0]) simp
  qed
qed

lemma closeChunk_eq:
  "addOverlap (ChunkOverlap s) (rev (curChunk st)) ([], 0) = (cur, n) \<Longrightarrow>
   closeChunk s st = st\<lparr>chunks := chunks st @ [chunkString (curChunk st)],
                        curChunk := cur, curChunkLen := n, newChunk := True\<rparr>"
  by (simp add: closeChunk_def)

lemma closing_overlapOK:
  assumes "ovInv s cs splits segs a st" and "\<not> newChunk st" and "segs \<noteq> []"
  shows "overlapOK s cs splits (last segs) (a, splitIdx st)"
  using assms
  by (cases "last segs") (auto simp: ovInv_def linked_def overlapOK_def)

lemma closeChunk_ovInv:
  assumes inv: "ovInv s cs splits segs a st" and nn: "\<not> newChunk st"
  shows "\<exists>a'. ovInv s cs splits (segs @ [(a, splitIdx st)]) a' (closeChunk s st)"
proof -
  let ?i = "splitIdx st"
  let ?ov = "ChunkOverlap s"
  from inv nn have a: "a < ?i" "?i \<le> length splits"
    and cur: "curChunk st = leafItems splits a ?i"
    by (auto simp: ovInv_def)
  have len: "length (leafItems splits a ?i) = ?i - a"
    using a(2) by (rule length_leafItems)
  from addOverlap_spec[of "leafItems splits a ?i" ?ov "[]" 0] obtain k where
    k: "k \<le> ?i - a"
    "addOverlap ?ov (rev (leafItems splits a ?i)) ([], 0)
       = (leafItems splits (a + k) ?i, leafSize splits (a + k) ?i)"
    "k < ?i - a \<longrightarrow> leafSize splits (a + k) ?i \<le> ?ov"
    "0 < k \<longrightarrow> ?ov < itemsSize (drop (k - 1) (leafItems splits a ?i))"
    unfolding len by (auto simp: drop_leafItems leafSize_def)
  have k4: "a < a + k \<longrightarrow> ?ov < leafSize splits (a + k - 1) ?i"
  proof
    assume "a < a + k"
    then have "0 < k" "a + (k - 1) = a + k - 1" by simp_all
    with k(4) show "?ov < leafSize splits (a + k - 1) ?i"
      by (simp add: drop_leafItems leafSize_def)
  qed
  have eq: "closeChunk s st = st\<lparr>chunks := chunks st @ [chunkString (curChunk st)],
                        curChunk := leafItems splits (a + k) ?i,
                        curChunkLen := leafSize splits (a + k) ?i, newChunk := True\<rparr>"
    using k(2) cur by (intro closeChunk_eq) simp
  have succ: "successively (overlapOK s cs splits) (segs @ [(a, ?i)])"
    using inv closing_overlapOK[OF inv nn]
    by (auto simp: successively_append_iff ovInv_def)
  have "ovInv s cs splits (segs @ [(a, ?i)]) (a + k) (closeChunk s st)"
    unfolding ovInv_def eq
    using inv a k(1,3) k4 succ cur
    by (auto simp: ovInv_def leafText_def linked_def)
  then show ?thesis ..
qed

lemma append_ovInv:
  assumes nonneg: "\<forall>sp\<in>set splits. 0 \<le> tokenSize sp"
    and inv: "ovInv s cs splits segs a st"
    and idx: "splitIdx st < length splits"
    and pf: "(if newChunk st \<and> curChunkLen st + tokenSize (splits ! splitIdx st) > cs
              then popFront cs (tokenSize (splits ! splitIdx st)) (curChunk st, curChunkLen st)
              else (curChunk st, curChunkLen st)) = (cur, n)"
  shows "\<exists>a'. ovInv s cs splits segs a'
           (st\<lparr>curChunk := cur, curChunkLen := n\<rparr>
              \<lparr>curChunkLen := n + tokenSize (splits ! splitIdx st),
               curChunk := cur @ [\<lparr>btext = ttext (splits ! splitIdx st),
                                  blen = tokenSize (splits ! splitIdx st)\<rparr>],
               splitIdx := splitIdx st + 1, newChunk := False\<rparr>)"
    (is "\<exists>a'. ovInv s cs splits segs a' ?st'")
proof -
  let ?i = "splitIdx st"
  let ?t = "tokenSize (splits ! ?i)"
  let ?ov = "ChunkOverlap s"
  from inv have a: "a \<le> ?i" and cur: "curChunk st = leafItems splits a ?i"
    and n: "curChunkLen st = leafSize splits a ?i"
    by (auto simp: ovInv_def)
  have len: "length (leafItems splits a ?i) = ?i - a"
    using idx by (intro length_leafItems) simp
  have "\<exists>j\<le>?i - a. cur = leafItems splits (a + j) ?i \<and> n = leafSize splits (a + j) ?i \<and>
          (0 < j \<longrightarrow> newChunk st \<and> cs < leafSize splits (a + j - 1) ?i + ?t)"
  proof (cases "newChunk st \<and> curChunkLen st + ?t > cs")
    case True
    from popFront_spec[of "leafItems splits a ?i" cs ?t "leafSize splits a ?i"] obtain j where
      j: "j \<le> ?i - a"
      "popFront cs ?t (leafItems splits a ?i, leafSize splits a ?i)
         = (drop j (leafItems splits a ?i),
            leafSize splits a ?i - itemsSize (take j (leafItems splits a ?i)))"
      "0 < j \<longrightarrow> cs < leafSize splits a ?i - itemsSize (take (j - 1) (leafItems splits a ?i)) + ?t"
      unfolding len by blast
    have sz: "leafSize splits a ?i - itemsSize (take m (leafItems splits a ?i))
                  = leafSize splits (a + m) ?i" for m
      using itemsSize_take_drop[of m "leafItems splits a ?i"]
      by (simp add: leafSize_def drop_leafItems)
    have "0 < j \<longrightarrow> cs < leafSize splits (a + j - 1) ?i + ?t"
    proof
      assume "0 < j"
      then have "a + (j - 1) = a + j - 1" by simp
      with j(3) \<open>0 < j\<close> sz[of "j - 1"] show "cs < leafSize splits (a + j - 1) ?i + ?t" by simp
    qed
    with True pf j(1,2) cur n sz[of j] show ?thesis
      by (intro exI[of _ j]) (auto simp: drop_leafItems)
  next
    case False
    with pf cur n show ?thesis by (intro exI[of _ 0]) auto
  qed
  then obtain j where j: "j \<le> ?i - a" "cur = leafItems splits (a + j) ?i"
    "n = leafSize splits (a + j) ?i"
    "0 < j \<longrightarrow> newChunk st \<and> cs < leafSize splits (a + j - 1) ?i + ?t" by blast
  let ?a' = "a + j"
  have a': "?a' \<le> ?i" using j(1) a by simp
  have items: "cur @ [\<lparr>btext = ttext (splits ! ?i), blen = ?t\<rparr>] = leafItems splits ?a' (Suc ?i)"
    using leafItems_Suc[OF a' idx] j(2) by (simp add: leafItem_def)
  have size: "n + ?t = leafSize splits ?a' (Suc ?i)"
    using leafItems_Suc[OF a' idx] j(3) by (simp add: leafSize_def leafItem_def)
  have link: "linked s cs splits (last segs) ?a' ?st'" if ne: "segs \<noteq> []"
  proof -
    obtain al bl where l: "last segs = (al, bl)" by (cases "last segs")
    from inv ne l have lk: "al \<le> a" "a \<le> bl" "a < bl \<longrightarrow> leafSize splits a bl \<le> ?ov"
      "newChunk st \<longrightarrow> ?i = bl \<and> (al < a \<longrightarrow> ?ov < leafSize splits (a - 1) bl)"
      "\<not> newChunk st \<longrightarrow> bl < ?i \<and>
          (al < a \<longrightarrow> ?ov < leafSize splits (a - 1) bl \<or>
                     cs < leafSize splits (a - 1) bl + tokenSize (splits ! bl))"
      by (auto simp: ovInv_def linked_def split: if_splits)
    have st': "newChunk ?st' = False" "splitIdx ?st' = Suc ?i"
      by simp_all
    show ?thesis
    proof (cases "newChunk st")
      case True
      with lk have bl: "bl = ?i" by simp
      have "leafSize splits ?a' ?i \<le> leafSize splits a ?i"
        using leafSize_mono[OF nonneg, of a ?a' ?i] by simp
      with lk(3) a' bl have 3: "?a' < ?i \<longrightarrow> leafSize splits ?a' ?i \<le> ?ov" by auto
      have 5: "al < ?a' \<longrightarrow> ?ov < leafSize splits (?a' - 1) ?i \<or>
                 cs < leafSize splits (?a' - 1) ?i + ?t"
      proof (cases "j = 0")
        case True
        with lk(4) \<open>newChunk st\<close> bl show ?thesis by simp
      next
        case False
        with j(4) show ?thesis by simp
      qed
      from lk(1) have 1: "al \<le> ?a'" by simp
      have "linked s cs splits (al, ?i) ?a' ?st'"
        unfolding linked_def st' using 1 a' 3 5 by simp
      then show ?thesis unfolding l bl .
    next
      case False
      with j(4) have j0: "j = 0" by auto
      from False lk(5) have "bl < Suc ?i" by simp
      with lk(1,2,3,5) False have "linked s cs splits (al, bl) a ?st'"
        unfolding linked_def st' by simp
      then show ?thesis unfolding l j0 by simp
    qed
  qed
  have "ovInv s cs splits segs ?a' ?st'"
    unfolding ovInv_def
    using inv a' idx items size link
    by (auto simp: ovInv_def)
  then show ?thesis ..
qed

lemma mergeStep_ovInv:
  assumes nonneg: "\<forall>sp\<in>set splits. 0 \<le> tokenSize sp"
    and ex: "\<exists>segs a. ovInv s cs splits segs a st"
    and idx: "splitIdx st < length splits"
    and step: "mergeStep s splits cs st = Inr st'"
  shows "\<exists>segs a. ovInv s cs splits segs a st'"
proof -
  from ex obtain segs a where inv: "ovInv s cs splits segs a st" by blast
  let ?sp = "splits ! splitIdx st"
  let ?t = "tokenSize ?sp"
  from step have fit: "?t \<le> cs"
    by (auto simp: mergeStep_def Let_def split: if_splits)
  show ?thesis
  proof (cases "curChunkLen st + ?t > cs \<and> \<not> newChunk st")
    case True
    with step fit have "st' = closeChunk s st"
      by (auto simp: mergeStep_def Let_def)
    with closeChunk_ovInv[OF inv] True show ?thesis by blast
  next
    case False
    obtain cur n where pf: "(if newChunk st \<and> curChunkLen st + ?t > cs
               then popFront cs ?t (curChunk st, curChunkLen st)
               else (curChunk st, curChunkLen st)) = (cur, n)"
      by (cases "if newChunk st \<and> curChunkLen st + ?t > cs
               then popFront cs ?t (curChunk st, curChunkLen st)
               else (curChunk st, curChunkLen st)")
    show ?thesis
    proof (cases "isSentence ?sp \<or> n + ?t \<le> cs \<or> newChunk st")
      case True
      with step fit False pf
      have "st' = st\<lparr>curChunk := cur, curChunkLen := n\<rparr>
                 \<lparr>curChunkLen := n + ?t,
                  curChunk := cur @ [\<lparr>btext = ttext ?sp, blen = ?t\<rparr>],
                  splitIdx := splitIdx st + 1, newChunk := False\<rparr>"
        by (simp add: mergeStep_def Let_def)
      with append_ovInv[OF nonneg inv idx pf] show ?thesis by blast
    next
      case nf: False
      then have nn: "\<not> newChunk st" by simp
      with pf have same: "st\<lparr>curChunk := cur, curChunkLen := n\<rparr> = st" by auto
      from step fit False pf nf have "st' = closeChunk s (st\<lparr>curChunk := cur, curChunkLen := n\<rparr>)"
        by (simp add: mergeStep_def Let_def)
      with same closeChunk_ovInv[OF inv nn] show ?thesis by auto
    qed
  qed
qed

lemma successively_nth:
  "successively P xs \<Longrightarrow> Suc i < length xs \<Longrightarrow> P (xs ! i) (xs ! Suc i)"
proof (induction P xs arbitrary: i rule: successively.induct)
  case (3 P x y xs)
  then show ?case by (cases i) auto
qed simp_all

lemma merge_overlap_segments:
  assumes nonneg: "\<forall>sp\<in>set splits. 0 \<le> tokenSize sp"
    and run: "merge s splits cs = Some (Inr chunks')"
  shows "\<exists>segs. length segs = length chunks' \<and>
     (\<forall>i<length segs. fst (segs ! i) < snd (segs ! i) \<and> snd (segs ! i) \<le> length splits \<and>
        chunks' ! i = leafText splits (fst (segs ! i)) (snd (segs ! i))) \<and>
     (\<forall>i. Suc i < length segs \<longrightarrow> overlapOK s cs splits (segs ! i) (segs ! Suc i))"
proof -
  from run obtain st where st: "mergeLoop s splits cs mergeInit = Some (Inr st)"
    and res: "chunks' = (if \<not> newChunk st then chunks st @ [chunkString (curChunk st)]
                         else chunks st)"
    by (auto simp: merge_def split: option.splits sum.splits)
  have "ovInv s cs splits [] 0 mergeInit"
    by (simp add: ovInv_def mergeInit_def leafSize_def)
  then have "\<exists>segs a. ovInv s cs splits segs a mergeInit" by blast
  then have "(\<exists>segs a. ovInv s cs splits segs a st) \<and> \<not> splitIdx st < length splits"
  proof (rule mergeLoop_invariant[where I="\<lambda>st. \<exists>segs a. ovInv s cs splits segs a st",
        rotated])
    show "mergeLoop s splits cs mergeInit = Some (Inr st)" by (rule st)
  next
    fix st0 st1
    assume "\<exists>segs a. ovInv s cs splits segs a st0" "splitIdx st0 < length splits"
      "mergeStep s splits cs st0 = Inr st1"
    then show "\<exists>segs a. ovInv s cs splits segs a st1"
      by (rule mergeStep_ovInv[OF nonneg])
  qed
  then obtain segs a where inv: "ovInv s cs splits segs a st" by blast
  define segs' where "segs' = (if \<not> newChunk st then segs @ [(a, splitIdx st)] else segs)"
  have ch: "chunks' = map (\<lambda>(a, b). leafText splits a b) segs'"
    using inv res by (auto simp: segs'_def ovInv_def leafText_def)
  have valid: "\<forall>(a, b)\<in>set segs'. a < b \<and> b \<le> length splits"
    using inv by (auto simp: segs'_def ovInv_def)
  have succ: "successively (overlapOK s cs splits) segs'"
    using inv closing_overlapOK[OF inv]
    by (auto simp: segs'_def successively_append_iff ovInv_def)
  show ?thesis
  proof (intro exI[of _ segs'] conjI allI impI)
    show "length segs' = length chunks'" using ch by simp
  next
    fix i assume i: "i < length segs'"
    then have "segs' ! i \<in> set segs'" by simp
    with valid show "fst (segs' ! i) < snd (segs' ! i)" "snd (segs' ! i) \<le> length splits"
      by (auto simp: case_prod_beta)
    from i ch show "chunks' ! i = leafText splits (fst (segs' ! i)) (snd (segs' ! i))"
      by (simp add: case_prod_beta)
  next
    fix i assume "Suc i < length segs'"
    with succ show "overlapOK s cs splits (segs' ! i) (segs' ! Suc i)"
      by (rule successively_nth)
  qed
qed

text \<open>
  C4, as the code has it. For a non-empty input on which \<^verbatim>\<open>SplitText\<close> returns, the
  result is the post-processed (trimmed, empty ones dropped) chunk sequence of \<^verbatim>\<open>merge\<close>,
  in which every chunk is the concatenation of a run of consecutive leaves and any two
  consecutive chunks are related by \<open>overlapOK\<close>: the later chunk begins with a run of
  trailing leaves of the earlier one (the overlap, possibly empty) and continues with at
  least one further leaf; a non-empty overlap has total size at most the overlap size;
  and the overlap stops before a leaf of the earlier chunk only because with that leaf it
  would exceed the overlap size, or would leave no room within the chunk size for the
  next leaf.
\<close>

theorem SplitText_overlap:
  assumes "text \<noteq> []" and "SplitText depth s text = Some (Inr cs)"
  shows "\<exists>splits chunks' segs.
     split depth s text (ChunkSize s) = Some splits \<and>
     merge s splits (ChunkSize s) = Some (Inr chunks') \<and>
     cs = postprocessChunks chunks' \<and>
     length segs = length chunks' \<and>
     (\<forall>i<length segs. fst (segs ! i) < snd (segs ! i) \<and> snd (segs ! i) \<le> length splits \<and>
        chunks' ! i = leafText splits (fst (segs ! i)) (snd (segs ! i))) \<and>
     (\<forall>i. Suc i < length segs \<longrightarrow>
        overlapOK s (ChunkSize s) splits (segs ! i) (segs ! Suc i))"
proof -
  from assms obtain splits chunks' where
    l: "split depth s text (ChunkSize s) = Some splits" and
    m: "merge s splits (ChunkSize s) = Some (Inr chunks')" and
    p: "cs = postprocessChunks chunks'"
    by (auto simp: SplitText_def splitText_def split: option.splits sum.splits)
  from split_leaves_measured[OF l] have "\<forall>sp\<in>set splits. 0 \<le> tokenSize sp"
    by (simp add: getTokenSize_def)
  from merge_overlap_segments[OF this m] l m p show ?thesis by blast
qed

theorem SplitText_overlap_witness:
  "\<exists>splits chunks' segs.
     split 2 (NewSentenceSplitter 5 2 None None) (S ''a b. c d. e f.'')
       (ChunkSize (NewSentenceSplitter 5 2 None None)) = Some splits \<and>
     merge (NewSentenceSplitter 5 2 None None) splits
       (ChunkSize (NewSentenceSplitter 5 2 None None)) = Some (Inr chunks') \<and>
     [S ''a b. c d.'', S ''c d. e f.''] = postprocessChunks chunks' \<and>
     length segs = length chunks' \<and>
     (\<forall>i<length segs. fst (segs ! i) < snd (segs ! i) \<and> snd (segs ! i) \<le> length splits \<and>
        chunks' ! i = leafText splits (fst (segs ! i)) (snd (segs ! i))) \<and>
     (\<forall>i. Suc i < length segs \<longrightarrow>
        overlapOK (NewSentenceSplitter 5 2 None None)
          (ChunkSize (NewSentenceSplitter 5 2 None None)) splits (segs ! i) (segs ! Suc i))"
proof -
  have run: "SplitText 2 (NewSentenceSplitter 5 2 None None) (S ''a b. c d. e f.'')
               = Some (Inr [S ''a b. c d.'', S ''c d. e f.''])"
    by code_simp
  have ne: "S ''a b. c d. e f.'' \<noteq> []"
    by (simp add: S_def)
  from SplitText_overlap[OF ne run] show ?thesis .
qed

text \<open>With chunk size 5 and overlap 1, the three sentences of \<^verbatim>\<open>a b. c d. e f.\<close> measure
  2 each. The second chunk shares nothing with the first (no non-empty suffix of the first
  is a prefix of the second), although the last sentence of the first chunk and the next
  sentence would have fitted together (2 + 2 \<open>\<le>\<close> 5): the overlap is empty because that
  sentence alone exceeds the overlap size.\<close>

theorem SplitText_no_overlap_counterexample:
  "SplitText 2 (NewSentenceSplitter 5 1 None None) (S ''a b. c d. e f.'')
     = Some (Inr [S ''a b. c d.'', S ''e f.'']) \<and>
   [k \<leftarrow> [0..<length (S ''a b. c d.'')].
      take (length (S ''a b. c d.'') - k) (S ''e f.'') = drop k (S ''a b. c d.'')] = [] \<and>
   split 2 (NewSentenceSplitter 5 1 None None) (S ''a b. c d. e f.'') 5
     = Some [\<lparr>ttext = S ''a b.'', isSentence = True, tokenSize = 2\<rparr>,
             \<lparr>ttext = S '' c d.'', isSentence = True, tokenSize = 2\<rparr>,
             \<lparr>ttext = S '' e f.'', isSentence = True, tokenSize = 2\<rparr>] \<and>
   ChunkOverlap (NewSentenceSplitter 5 1 None None) = 1 \<and>
   ChunkSize (NewSentenceSplitter 5 1 None None) = 5"
  by code_simp

end
